theory Spec2Isabelle
  imports Complex_Main "HOL-Library.Word" "HOL-Library.List_Lexorder" "HOL-Library.Char_ord"
begin

section \<open>Utilities of the coral-reef segmentation trainer (coral\_reef/ml/utils.py)\<close>

text \<open>
  The exceptions the modelled functions can raise. \<open>KeyError k\<close> is Python's generic
  dictionary-lookup failure for the key \<open>k\<close>; \<open>ValueError\<close> is what \<^verbatim>\<open>range\<close> raises
  for a zero step; \<open>IndexError\<close> is numpy's out-of-bounds index; \<open>ZeroDivisionError\<close> is
  what \<^verbatim>\<open>/\<close> raises for a zero divisor.
\<close>

datatype py_error = KeyError string | ValueError | IndexError | ZeroDivisionError

subsection \<open>Rectangle geometry\<close>

text \<open>
  A rectangle is the list \<^verbatim>\<open>[x1, y1, x2, y2]\<close>, read by index only; it is modelled as a
  4-tuple of Python integers.
\<close>

type_synonym rect = "int \<times> int \<times> int \<times> int"

fun calc_rect_size :: "rect \<Rightarrow> int" where
  "calc_rect_size (r0, r1, r2, r3) = (r3 - r1) * (r2 - r0)"

fun calc_intersection :: "rect \<Rightarrow> rect \<Rightarrow> int" where
  "calc_intersection (a0, a1, a2, a3) (b0, b1, b2, b3) =
     (let x1 = max a0 b0; y1 = max a1 b1; x2 = min a2 b2; y2 = min a3 b3
      in if x2 < x1 \<or> y2 < y1 then 0 else (x2 - x1) * (y2 - y1))"

definition calc_union :: "rect \<Rightarrow> rect \<Rightarrow> int" where
  "calc_union rect1 rect2 =
     calc_rect_size rect1 + calc_rect_size rect2 - calc_intersection rect1 rect2"

text \<open>
  \<^verbatim>\<open>/\<close> is Python 3's true division: on integers it raises for a zero divisor and
  otherwise returns the quotient as a fraction.
\<close>

definition py_truediv :: "int \<Rightarrow> int \<Rightarrow> py_error + rat" where
  "py_truediv a b = (if b = 0 then Inl ZeroDivisionError else Inr (of_int a / of_int b))"

definition calc_IOU :: "rect \<Rightarrow> rect \<Rightarrow> py_error + rat" where
  "calc_IOU rect1 rect2 = py_truediv (calc_intersection rect1 rect2) (calc_union rect1 rect2)"

subsection \<open>Arrays\<close>

text \<open>
  A two-dimensional numpy array is its shape and its elements: \<open>px a y x\<close> is \<^verbatim>\<open>a[y, x]\<close>,
  row \<open>y\<close> and column \<open>x\<close>, meaningful for \<open>y < height a\<close> and \<open>x < width a\<close>.
  \<open>full h w v\<close> is \<^verbatim>\<open>np.full((h, w), v)\<close> and \<open>zeros h w\<close> is \<^verbatim>\<open>np.zeros((h, w))\<close>.
\<close>

datatype 'a ndarray = Array (height: nat) (width: nat) (px: "nat \<Rightarrow> nat \<Rightarrow> 'a")

definition full :: "nat \<Rightarrow> nat \<Rightarrow> 'a \<Rightarrow> 'a ndarray" where
  "full h w v = Array h w (\<lambda>y x. v)"

definition zeros :: "nat \<Rightarrow> nat \<Rightarrow> 'a::zero ndarray" where
  "zeros h w = full h w 0"

text \<open>
  Basic slicing \<^verbatim>\<open>a[start:stop]\<close> along an axis of length \<open>n\<close>: a negative bound counts
  from the end, both bounds are clipped to the axis, and an empty range gives length 0.
  The result is the offset of the first element taken and the number of elements.
\<close>

definition slice_index :: "nat \<Rightarrow> int \<Rightarrow> nat" where
  "slice_index n i = (if i < 0 then nat (max 0 (i + int n)) else nat (min i (int n)))"

definition slice_bounds :: "nat \<Rightarrow> int \<Rightarrow> int \<Rightarrow> nat \<times> nat" where
  "slice_bounds n start stop = (slice_index n start, slice_index n stop - slice_index n start)"

text \<open>\<^verbatim>\<open>image[start_y:end_y, start_x:end_x]\<close>\<close>

definition slice2 :: "'a ndarray \<Rightarrow> int \<Rightarrow> int \<Rightarrow> int \<Rightarrow> int \<Rightarrow> 'a ndarray" where
  "slice2 img start_y end_y start_x end_x =
     (let (oy, ny) = slice_bounds (height img) start_y end_y;
          (ox, nx) = slice_bounds (width img) start_x end_x
      in Array ny nx (\<lambda>i j. px img (oy + i) (ox + j)))"

subsection \<open>Window tiler\<close>

text \<open>
  \<^verbatim>\<open>range(start, stop, step)\<close> as the list of its values; a zero step raises.
\<close>

definition py_range :: "int \<Rightarrow> int \<Rightarrow> int \<Rightarrow> py_error + int list" where
  "py_range start stop step =
     (if step = 0 then Inl ValueError
      else if 0 < step
        then Inr (map (\<lambda>k. start + int k * step) [0 ..< nat ((stop - start + step - 1) div step)])
        else Inr (map (\<lambda>k. start + int k * step) [0 ..< nat ((start - stop - step - 1) div (- step))]))"

text \<open>
  The tiler computes with Python integers, with one float division and with numpy's 64-bit
  integers: \<^verbatim>\<open>int(window_size / 2)\<close> goes through a float, which is exact for absolute
  values up to \<open>2\<^sup>5\<^sup>3\<close> and raises \<open>OverflowError\<close> beyond the float range, and
  \<^verbatim>\<open>np.min([x + window_size, w])\<close> is an integer only while the sum fits 64 bits. The model
  below computes with exact integers; it follows the code for images and window sizes
  in the range \<open>exact_range\<close>, and the properties of the tiler are stated there.
\<close>

definition exact_range :: "'a ndarray \<Rightarrow> int \<Rightarrow> bool" where
  "exact_range img window_size =
     (int (height img) < 2 ^ 53 \<and> int (width img) < 2 ^ 53 \<and> \<bar>window_size\<bar> < 2 ^ 53)"

text \<open>
  \<^verbatim>\<open>int(window_size / 2)\<close>: true division, then truncation towards zero (exact in
  \<open>exact_range\<close>).
\<close>

definition half_window :: "int \<Rightarrow> int" where
  "half_window window_size = (if 0 \<le> window_size then window_size div 2 else - ((- window_size) div 2))"

text \<open>\<^verbatim>\<open>step_size = int(window_size / 2) if step_size is None else step_size\<close>\<close>

definition resolve_step :: "int \<Rightarrow> int option \<Rightarrow> int" where
  "resolve_step window_size step_size =
     (case step_size of None \<Rightarrow> half_window window_size | Some s \<Rightarrow> s)"

text \<open>
  The state of the two loops is the pair of lists \<^verbatim>\<open>cuts\<close> and \<^verbatim>\<open>start_points\<close>, both
  appended to at the end; \<^verbatim>\<open>start_points[-1]\<close> is the last point appended, whichever
  column it came from. A start point is the pair \<^verbatim>\<open>[start_x, start_y]\<close>.
\<close>

type_synonym 'a tiles = "'a ndarray list \<times> (int \<times> int) list"

text \<open>
  The inner loop over \<open>y\<close>, for one column; \<^verbatim>\<open>break\<close> returns the state as it is.
  \<open>min\<close> is \<^verbatim>\<open>np.min\<close> of the two integers (64-bit in \<open>exact_range\<close>).
\<close>

fun cut_rows :: "'a ndarray \<Rightarrow> int \<Rightarrow> int \<Rightarrow> int \<Rightarrow> int list \<Rightarrow> 'a tiles \<Rightarrow> 'a tiles" where
  "cut_rows img window_size start_x end_x [] (cuts, start_points) = (cuts, start_points)"
| "cut_rows img window_size start_x end_x (y # ys) (cuts, start_points) =
     (let h = int (height img);
          end_y = min (y + window_size) h;
          start_y = end_y - window_size
      in if start_points \<noteq> [] \<and> start_y = snd (last start_points) then (cuts, start_points)
         else cut_rows img window_size start_x end_x ys
                (cuts @ [slice2 img start_y end_y start_x end_x],
                 start_points @ [(start_x, start_y)]))"

text \<open>
  The outer loop over \<open>x\<close>. The inner \<^verbatim>\<open>range\<close> is evaluated in every iteration that does
  not break.
\<close>

fun cut_cols :: "'a ndarray \<Rightarrow> int \<Rightarrow> int \<Rightarrow> int list \<Rightarrow> 'a tiles \<Rightarrow> py_error + 'a tiles" where
  "cut_cols img window_size step_size [] (cuts, start_points) = Inr (cuts, start_points)"
| "cut_cols img window_size step_size (x # xs) (cuts, start_points) =
     (let h = int (height img); w = int (width img);
          end_x = min (x + window_size) w;
          start_x = end_x - window_size
      in if start_points \<noteq> [] \<and> start_x = fst (last start_points) then Inr (cuts, start_points)
         else (case py_range 0 (h - step_size) step_size of
                 Inl e \<Rightarrow> Inl e
               | Inr ys \<Rightarrow> cut_cols img window_size step_size xs
                             (cut_rows img window_size start_x end_x ys (cuts, start_points))))"

definition cut_windows :: "'a ndarray \<Rightarrow> int \<Rightarrow> int option \<Rightarrow> py_error + 'a tiles" where
  "cut_windows img window_size step_size =
     (let step = resolve_step window_size step_size;
          w = int (width img)
      in case py_range 0 (w - step) step of
           Inl e \<Rightarrow> Inl e
         | Inr xs \<Rightarrow> cut_cols img window_size step xs ([], []))"

text \<open>
  A tile with origin \<open>(start_x, start_y)\<close> is a full window of the image: it lies inside
  the image, has \<open>window_size\<close> rows and columns, and holds the image's pixels from the
  origin on.
\<close>

definition full_window :: "'a ndarray \<Rightarrow> int \<Rightarrow> 'a ndarray \<Rightarrow> int \<times> int \<Rightarrow> bool" where
  "full_window img window_size tile p =
     (0 \<le> fst p \<and> fst p \<le> int (width img) - window_size \<and>
      0 \<le> snd p \<and> snd p \<le> int (height img) - window_size \<and>
      int (height tile) = window_size \<and> int (width tile) = window_size \<and>
      (\<forall>i < height tile. \<forall>j < width tile.
         px tile i j = px img (nat (snd p) + i) (nat (fst p) + j)))"

text \<open>The pixel in column \<open>x\<close>, row \<open>y\<close> lies in the window with origin \<open>p\<close>.\<close>

definition in_window :: "int \<Rightarrow> int \<times> int \<Rightarrow> int \<Rightarrow> int \<Rightarrow> bool" where
  "in_window window_size p x y =
     (fst p \<le> x \<and> x < fst p + window_size \<and> snd p \<le> y \<and> y < snd p + window_size)"

definition covered :: "int \<Rightarrow> (int \<times> int) list \<Rightarrow> int \<Rightarrow> int \<Rightarrow> bool" where
  "covered window_size start_points x y = list_ex (\<lambda>p. in_window window_size p x y) start_points"

text \<open>What a result shows without its pixels: the shape of every tile, and the origins.\<close>

definition shapes :: "'a tiles \<Rightarrow> (nat \<times> nat) list \<times> (int \<times> int) list" where
  "shapes t = (map (\<lambda>c. (height c, width c)) (fst t), snd t)"

text \<open>
  A tile that is not a full window: its origin is negative on an axis and it has fewer
  than \<open>window_size\<close> pixels along that axis.
\<close>

definition truncated_tile :: "int \<Rightarrow> 'a ndarray \<Rightarrow> int \<times> int \<Rightarrow> bool" where
  "truncated_tile window_size tile p =
     ((fst p < 0 \<and> int (width tile) < window_size) \<or>
      (snd p < 0 \<and> int (height tile) < window_size))"

text \<open>
  The values of a non-empty \<^verbatim>\<open>range(y0, stop, step)\<close> with a positive step, one by one:
  each is below \<open>stop\<close>, the next is \<open>step\<close> further, and the last is within \<open>step\<close> of
  \<open>stop\<close>.
\<close>

fun steps_from :: "int \<Rightarrow> int \<Rightarrow> int \<Rightarrow> int list \<Rightarrow> bool" where
  "steps_from step stop y0 [] = False"
| "steps_from step stop y0 (y # ys) =
     (y = y0 \<and> y0 < stop \<and> (if ys = [] then stop \<le> y0 + step else steps_from step stop (y0 + step) ys))"

subsection \<open>Dictionaries\<close>

text \<open>
  A dictionary with string keys (a loaded JSON object) is an association list read by
  \<open>map_of\<close>. \<open>sorted_keys d\<close> is \<^verbatim>\<open>sorted(d.keys())\<close>: every key once, in the order of
  Python's string comparison (lexicographic on the characters). \<open>dict_get d k\<close> is
  \<^verbatim>\<open>d[k]\<close>, which raises \<open>KeyError\<close> for a missing key.
\<close>

type_synonym 'v dict = "(string \<times> 'v) list"

definition sorted_keys :: "'v dict \<Rightarrow> string list" where
  "sorted_keys d = sort (remdups (map fst d))"

definition dict_get :: "'v dict \<Rightarrow> string \<Rightarrow> py_error + 'v" where
  "dict_get d k = (case map_of d k of None \<Rightarrow> Inl (KeyError k) | Some v \<Rightarrow> Inr v)"

subsection \<open>Mask and colour codec\<close>

text \<open>
  A colour mask holds integer colour codes; the class-id mask and the colour masks that
  the codec produces are \<^verbatim>\<open>uint8\<close> arrays, modelled with 8-bit words. Storing a Python
  integer in a \<^verbatim>\<open>uint8\<close> array keeps its low 8 bits (numpy before 2.0, which the code was
  written for), which is \<open>of_nat\<close> and \<open>word_of_int\<close>.

  \<open>assign_where cond v a\<close> is the masked assignment \<^verbatim>\<open>a[cond] = v\<close>.
\<close>

definition assign_where :: "(nat \<Rightarrow> nat \<Rightarrow> bool) \<Rightarrow> 'a \<Rightarrow> 'a ndarray \<Rightarrow> 'a ndarray" where
  "assign_where cond v a = Array (height a) (width a) (\<lambda>y x. if cond y x then v else px a y x)"


text \<open>
  A three-dimensional array of shape \<open>(height, width, channels)\<close>; \<open>px3 a y x i\<close> is
  \<^verbatim>\<open>a[y, x, i]\<close>.
\<close>

datatype 'a ndarray3 =
  Array3 (height3: nat) (width3: nat) (channels: nat) (px3: "nat \<Rightarrow> nat \<Rightarrow> nat \<Rightarrow> 'a")







text \<open>
  In \<^verbatim>\<open>mask[one_hot[:, :, i] == 1] = colour_mapping[k]\<close> the right-hand side is evaluated
  first; \<^verbatim>\<open>one_hot[:, :, i]\<close> raises \<open>IndexError\<close> when the array has no channel \<open>i\<close>.
\<close>

fun one_hot_loop ::
  "int ndarray3 \<Rightarrow> int dict \<Rightarrow> (nat \<times> string) list \<Rightarrow> 8 word ndarray \<Rightarrow> py_error + 8 word ndarray" where
  "one_hot_loop one_hot colour_mapping [] msk = Inr msk"
| "one_hot_loop one_hot colour_mapping ((i, k) # rest) msk =
     (case dict_get colour_mapping k of
        Inl e \<Rightarrow> Inl e
      | Inr c \<Rightarrow>
          if i < channels one_hot
          then one_hot_loop one_hot colour_mapping rest
                 (assign_where (\<lambda>y x. px3 one_hot y x i = 1) (word_of_int c) msk)
          else Inl IndexError)"

definition one_hot_to_mask :: "int ndarray3 \<Rightarrow> int dict \<Rightarrow> py_error + 8 word ndarray" where
  "one_hot_to_mask one_hot colour_mapping =
     one_hot_loop one_hot colour_mapping (enumerate 0 (sorted_keys colour_mapping))
       (zeros (height3 one_hot) (width3 one_hot))"



text \<open>\<open>full3 h w n v\<close> is \<^verbatim>\<open>np.full((h, w, n), v)\<close>.\<close>

definition full3 :: "nat \<Rightarrow> nat \<Rightarrow> nat \<Rightarrow> 'a \<Rightarrow> 'a ndarray3" where
  "full3 h w n v = Array3 h w n (\<lambda>y x i. v)"

text \<open>The \<open>(i, k)\<close> pairs a loop runs over all carry keys of the mapping.\<close>

definition entries_of :: "'v dict \<Rightarrow> (nat \<times> string) list \<Rightarrow> bool" where
  "entries_of d es = (\<forall>e \<in> set es. map_of d (snd e) \<noteq> None)"

text \<open>The colours of a mapping are 64-bit integers, which numpy converts without raising.\<close>

definition int64_colours :: "int dict \<Rightarrow> bool" where
  "int64_colours colour_mapping =
     (\<forall>c \<in> snd ` set colour_mapping. - (2 ^ 63) \<le> c \<and> c < 2 ^ 63)"

subsection \<open>Class weight calculator\<close>

text \<open>
  The statistics file is taken as loaded: a dictionary from class name to a record, itself
  a dictionary of numeric fields, of which \<^verbatim>\<open>"share"\<close> is read. The list comprehension
  \<^verbatim>\<open>[stats[c]["share"] for c in sorted(colour_mapping.keys())]\<close> stops at the first lookup
  that raises.

  The shares and the modifier are real numbers here: the rounding of floats is not
  modelled. What numpy returns where the real function has no value is: \<^verbatim>\<open>np.log\<close> gives
  \<^verbatim>\<open>nan\<close> for a negative argument and \<^verbatim>\<open>-inf\<close> for 0, and \<^verbatim>\<open>1 / x\<close> on an array gives
  \<^verbatim>\<open>inf\<close> for \<open>x = 0\<close>, 0 for an infinite \<open>x\<close> and \<^verbatim>\<open>nan\<close> for \<^verbatim>\<open>nan\<close>, each with a warning and
  without raising.
\<close>

datatype np_float = Finite real | PosInf | NegInf | NaN

definition np_log :: "real \<Rightarrow> np_float" where
  "np_log z = (if z < 0 then NaN else if z = 0 then NegInf else Finite (ln z))"

definition np_reciprocal :: "np_float \<Rightarrow> np_float" where
  "np_reciprocal v =
     (case v of
        Finite r \<Rightarrow> (if r = 0 then PosInf else Finite (1 / r))
      | PosInf \<Rightarrow> Finite 0
      | NegInf \<Rightarrow> Finite 0
      | NaN \<Rightarrow> NaN)"

fun collect_shares :: "(real dict) dict \<Rightarrow> string list \<Rightarrow> py_error + real list" where
  "collect_shares stats [] = Inr []"
| "collect_shares stats (c # cs) =
     (case dict_get stats c of
        Inl e \<Rightarrow> Inl e
      | Inr entry \<Rightarrow>
          (case dict_get entry ''share'' of
             Inl e \<Rightarrow> Inl e
           | Inr s \<Rightarrow>
               (case collect_shares stats cs of
                  Inl e \<Rightarrow> Inl e
                | Inr shares \<Rightarrow> Inr (s # shares))))"

text \<open>\<^verbatim>\<open>modifier=1.01\<close> is the default of the third parameter.\<close>

definition resolve_modifier :: "real option \<Rightarrow> real" where
  "resolve_modifier modifier = (case modifier of None \<Rightarrow> 101 / 100 | Some v \<Rightarrow> v)"

text \<open>\<^verbatim>\<open>class_weights = 1 / np.log(modifier + shares)\<close>, element by element.\<close>

definition calculate_class_weights ::
  "(real dict) dict \<Rightarrow> 'v dict \<Rightarrow> real option \<Rightarrow> py_error + np_float list" where
  "calculate_class_weights stats colour_mapping modifier =
     (case collect_shares stats (sorted_keys colour_mapping) of
        Inl e \<Rightarrow> Inl e
      | Inr shares \<Rightarrow>
          Inr (map (\<lambda>s. np_reciprocal (np_log (resolve_modifier modifier + s))) shares))"

text \<open>The share recorded for a class, when the statistics have it.\<close>

definition share_of :: "(real dict) dict \<Rightarrow> string \<Rightarrow> real option" where
  "share_of stats c = (case map_of stats c of None \<Rightarrow> None | Some entry \<Rightarrow> map_of entry ''share'')"

subsection \<open>Checkpoint saver\<close>

text \<open>
  The file system is a map from path to file content (bytes); the run folder is taken to
  exist and to be writable. \<open>path_join\<close> is \<^verbatim>\<open>os.path.join\<close> on two components (POSIX).
\<close>

type_synonym filesystem = "string \<rightharpoonup> 8 word list"

definition path_join :: "string \<Rightarrow> string \<Rightarrow> string" where
  "path_join a b =
     (if b \<noteq> [] \<and> hd b = CHR ''/'' then b
      else if a = [] \<or> last a = CHR ''/'' then a @ b
      else a @ ''/'' @ b)"

text \<open>\<^verbatim>\<open>"{}".format(epoch)\<close> for an integer epoch: its decimal digits, with a sign if negative.\<close>

fun str_nat :: "nat \<Rightarrow> string" where
  "str_nat n = (if n < 10 then [char_of (48 + n)] else str_nat (n div 10) @ [char_of (48 + n mod 10)])"

definition str_int :: "int \<Rightarrow> string" where
  "str_int i = (if i < 0 then CHR ''-'' # str_nat (nat (- i)) else str_nat (nat i))"

record 'i saver =
  instructions :: 'i
  folder_path :: string

definition checkpoint_path :: "'i saver \<Rightarrow> int \<Rightarrow> string" where
  "checkpoint_path self epoch =
     path_join (folder_path self) (''checkpoint_epoch_'' @ str_int epoch @ ''.pt'')"

definition best_path :: "'i saver \<Rightarrow> string" where
  "best_path self = path_join (folder_path self) ''model_best.pth''"

text \<open>
  \<^verbatim>\<open>torch.save\<close> writes the serialised state of the model to the path: \<open>state_bytes\<close>
  stands for \<^verbatim>\<open>model.state_dict()\<close> as serialised. \<^verbatim>\<open>shutil.copyfile(src, dst)\<close> gives
  \<open>dst\<close> the content of \<open>src\<close>.
\<close>

definition torch_save :: "8 word list \<Rightarrow> string \<Rightarrow> filesystem \<Rightarrow> filesystem" where
  "torch_save state_bytes file_path fs = fs(file_path \<mapsto> state_bytes)"

definition copyfile :: "string \<Rightarrow> string \<Rightarrow> filesystem \<Rightarrow> filesystem" where
  "copyfile src dst fs = fs(dst := fs src)"

definition save_checkpoint ::
  "'i saver \<Rightarrow> 8 word list \<Rightarrow> bool \<Rightarrow> int \<Rightarrow> filesystem \<Rightarrow> filesystem" where
  "save_checkpoint self state_bytes is_best epoch fs =
     (let file_path = checkpoint_path self epoch;
          fs1 = torch_save state_bytes file_path fs
      in if is_best then copyfile file_path (best_path self) fs1 else fs1)"

subsection \<open>Properties of the rectangle geometry\<close>

lemma calc_intersection_zero_area:
  assumes "calc_rect_size r1 = 0"
  shows "calc_intersection r1 r2 = 0"
proof -
  obtain a0 a1 a2 a3 where r1: "r1 = (a0, a1, a2, a3)" by (cases r1) auto
  obtain b0 b1 b2 b3 where r2: "r2 = (b0, b1, b2, b3)" by (cases r2) auto
  from assms r1 have "a3 = a1 \<or> a2 = a0" by simp
  then show ?thesis
  proof
    assume h: "a3 = a1"
    have "min a3 b3 < max a1 b1 \<or> min a3 b3 = max a1 b1" using h by auto
    then show ?thesis unfolding r1 r2 by (auto simp: Let_def)
  next
    assume w: "a2 = a0"
    have "min a2 b2 < max a0 b0 \<or> min a2 b2 = max a0 b0" using w by auto
    then show ?thesis unfolding r1 r2 by (auto simp: Let_def)
  qed
qed

text \<open>
  Claim C7. For any two degenerate rectangles (zero area each) \<open>calc_union\<close> returns 0,
  so the unguarded division in \<open>calc_IOU\<close> divides by zero: the call raises
  \<open>ZeroDivisionError\<close> and returns no value, in particular not a defined zero.
\<close>

theorem calc_IOU_degenerate_divides_by_zero:
  assumes "calc_rect_size r1 = 0" and "calc_rect_size r2 = 0"
  shows "calc_union r1 r2 = 0 \<and> calc_IOU r1 r2 = Inl ZeroDivisionError
         \<and> (\<forall>v. calc_IOU r1 r2 \<noteq> Inr v)"
proof -
  have u: "calc_union r1 r2 = 0"
    using assms calc_intersection_zero_area [OF assms(1), of r2] by (simp add: calc_union_def)
  then show ?thesis by (simp add: calc_IOU_def py_truediv_def)
qed

theorem calc_IOU_degenerate_divides_by_zero_witness:
  "calc_rect_size (1, 1, 1, 4) = 0 \<and> calc_rect_size (0, 2, 3, 2) = 0
   \<and> calc_union (1, 1, 1, 4) (0, 2, 3, 2) = 0
   \<and> calc_IOU (1, 1, 1, 4) (0, 2, 3, 2) = Inl ZeroDivisionError"
  using calc_IOU_degenerate_divides_by_zero [of "(1, 1, 1, 4)" "(0, 2, 3, 2)"] by simp

subsection \<open>Properties of the window tiler\<close>

lemma py_range_Inr: "step \<noteq> 0 \<Longrightarrow> \<exists>xs. py_range start stop step = Inr xs"
  by (simp add: py_range_def)

lemma py_range_nonneg:
  assumes "0 < step" and "py_range 0 stop step = Inr xs" and "x \<in> set xs"
  shows "0 \<le> x"
  using assms by (auto simp: py_range_def)

lemma py_range_empty:
  assumes "0 < step" and "stop \<le> 0"
  shows "py_range 0 stop step = Inr []"
proof -
  have "(stop + step - 1) div step \<le> 0"
  proof (cases "0 \<le> stop + step - 1")
    case True
    then have "(stop + step - 1) div step = 0" using assms by (intro div_pos_pos_trivial) auto
    then show ?thesis by simp
  next
    case False
    then have "(stop + step - 1) div step < 0" using assms by (intro div_neg_pos_less0) auto
    then show ?thesis by simp
  qed
  then show ?thesis using assms by (simp add: py_range_def)
qed

lemma cut_rows_inv:
  assumes "list_all2 R cuts pts"
    and "\<And>y. y \<in> set ys \<Longrightarrow>
           R (slice2 img (min (y + ws) (int (height img)) - ws) (min (y + ws) (int (height img))) sx ex)
             (sx, min (y + ws) (int (height img)) - ws)"
  shows "list_all2 R (fst (cut_rows img ws sx ex ys (cuts, pts)))
                     (snd (cut_rows img ws sx ex ys (cuts, pts)))"
  using assms
proof (induction ys arbitrary: cuts pts)
  case Nil
  then show ?case by simp
next
  case (Cons y ys)
  let ?sy = "min (y + ws) (int (height img)) - ws"
  let ?c = "slice2 img ?sy (min (y + ws) (int (height img))) sx ex"
  have new: "list_all2 R (cuts @ [?c]) (pts @ [(sx, ?sy)])"
    using Cons.prems by (simp add: list_all2_appendI)
  have rest: "\<And>y'. y' \<in> set ys \<Longrightarrow>
           R (slice2 img (min (y' + ws) (int (height img)) - ws) (min (y' + ws) (int (height img))) sx ex)
             (sx, min (y' + ws) (int (height img)) - ws)"
    using Cons.prems(2) by simp
  show ?case
    using Cons.IH [OF new rest] Cons.prems(1) by (simp add: Let_def)
qed

lemma cut_cols_inv:
  assumes "list_all2 R cuts pts"
    and "py_range 0 (int (height img) - step) step = Inr ys"
    and "\<And>x y. x \<in> set xs \<Longrightarrow> y \<in> set ys \<Longrightarrow>
           R (slice2 img (min (y + ws) (int (height img)) - ws) (min (y + ws) (int (height img)))
                 (min (x + ws) (int (width img)) - ws) (min (x + ws) (int (width img))))
             (min (x + ws) (int (width img)) - ws, min (y + ws) (int (height img)) - ws)"
  shows "\<exists>cuts' pts'. cut_cols img ws step xs (cuts, pts) = Inr (cuts', pts') \<and> list_all2 R cuts' pts'"
  using assms
proof (induction xs arbitrary: cuts pts)
  case Nil
  then show ?case by simp
next
  case (Cons x xs)
  let ?sx = "min (x + ws) (int (width img)) - ws"
  let ?ex = "min (x + ws) (int (width img))"
  let ?st = "cut_rows img ws ?sx ?ex ys (cuts, pts)"
  have col: "list_all2 R (fst ?st) (snd ?st)"
    using Cons.prems(1) Cons.prems(3) by (intro cut_rows_inv) simp_all
  have rest: "\<And>x' y. x' \<in> set xs \<Longrightarrow> y \<in> set ys \<Longrightarrow>
           R (slice2 img (min (y + ws) (int (height img)) - ws) (min (y + ws) (int (height img)))
                 (min (x' + ws) (int (width img)) - ws) (min (x' + ws) (int (width img))))
             (min (x' + ws) (int (width img)) - ws, min (y + ws) (int (height img)) - ws)"
    using Cons.prems(3) by simp
  have "\<exists>cuts' pts'. cut_cols img ws step xs (fst ?st, snd ?st) = Inr (cuts', pts') \<and> list_all2 R cuts' pts'"
    using Cons.IH [OF col Cons.prems(2) rest] .
  then show ?case
    using Cons.prems(1) Cons.prems(2) by (simp add: Let_def)
qed

lemma slice_bounds_inside:
  assumes "0 \<le> s" and "0 \<le> ws" and "s + ws \<le> int n"
  shows "slice_bounds n s (s + ws) = (nat s, nat ws)"
  using assms by (auto simp: slice_bounds_def slice_index_def nat_diff_distrib min_def)

lemma slice2_full_window:
  assumes "0 \<le> ws" and "0 \<le> sx" and "sx + ws \<le> int (width img)"
    and "0 \<le> sy" and "sy + ws \<le> int (height img)"
  shows "full_window img ws (slice2 img sy (sy + ws) sx (sx + ws)) (sx, sy)"
  using assms by (simp add: full_window_def slice2_def slice_bounds_inside)

lemma slice_index_le: "slice_index n i \<le> n"
  unfolding slice_index_def by (cases "i < 0") auto

lemma slice2_shape_le:
  "height (slice2 img sy ey sx ex) \<le> height img \<and> width (slice2 img sy ey sx ex) \<le> width img"
proof -
  have "slice_index (height img) ey - slice_index (height img) sy \<le> height img"
    using slice_index_le [of "height img" ey] by simp
  moreover have "slice_index (width img) ex - slice_index (width img) sx \<le> width img"
    using slice_index_le [of "width img" ex] by simp
  ultimately show ?thesis by (simp add: slice2_def slice_bounds_def)
qed

lemma cut_cols_no_rows:
  assumes "py_range 0 (int (height img) - step) step = Inr []"
  shows "cut_cols img ws step xs ([], []) = Inr ([], [])"
  using assms by (induction xs) (simp_all add: Let_def)

text \<open>
  Claim C2. For an image of height \<open>H\<close> and width \<open>W\<close>, a window size (a size, so not
  negative) with \<open>window_size \<le> min H W\<close> and any positive step size (given, or the
  default), \<open>cut_windows\<close> returns, with one origin per tile, only tiles of exactly
  \<open>window_size \<times> window_size\<close> pixels whose origin \<open>(start_x, start_y)\<close> satisfies
  \<open>0 \<le> start_x \<le> W - window_size\<close> and \<open>0 \<le> start_y \<le> H - window_size\<close>, and that hold
  the image's pixels from the origin on: no truncated tile, none past the boundary.
\<close>

theorem cut_windows_full_tiles:
  assumes "0 \<le> window_size"
    and "window_size \<le> int (height img)" and "window_size \<le> int (width img)"
    and "0 < resolve_step window_size step_size"
  shows "\<exists>cuts start_points.
           cut_windows img window_size step_size = Inr (cuts, start_points) \<and>
           list_all2 (full_window img window_size) cuts start_points"
proof -
  let ?step = "resolve_step window_size step_size"
  let ?h = "int (height img)" and ?w = "int (width img)"
  obtain xs where xs: "py_range 0 (?w - ?step) ?step = Inr xs"
    using py_range_Inr [of ?step] assms(4) by auto
  obtain ys where ys: "py_range 0 (?h - ?step) ?step = Inr ys"
    using py_range_Inr [of ?step] assms(4) by auto
  have tile: "full_window img window_size
        (slice2 img (min (y + window_size) ?h - window_size) (min (y + window_size) ?h)
                    (min (x + window_size) ?w - window_size) (min (x + window_size) ?w))
        (min (x + window_size) ?w - window_size, min (y + window_size) ?h - window_size)"
    if "x \<in> set xs" and "y \<in> set ys" for x y
  proof -
    have x0: "0 \<le> x" using py_range_nonneg [OF assms(4) xs that(1)] .
    have y0: "0 \<le> y" using py_range_nonneg [OF assms(4) ys that(2)] .
    let ?sx = "min (x + window_size) ?w - window_size"
    let ?sy = "min (y + window_size) ?h - window_size"
    have sx: "0 \<le> ?sx" "?sx + window_size \<le> ?w" using x0 assms by auto
    have sy: "0 \<le> ?sy" "?sy + window_size \<le> ?h" using y0 assms by auto
    show ?thesis
      using slice2_full_window [OF assms(1) sx sy] by simp
  qed
  have "\<exists>cuts' pts'. cut_cols img window_size ?step xs ([], []) = Inr (cuts', pts')
          \<and> list_all2 (full_window img window_size) cuts' pts'"
    by (rule cut_cols_inv [OF _ ys]) (simp_all add: tile)
  then show ?thesis by (simp add: cut_windows_def xs)
qed

theorem cut_windows_full_tiles_witness:
  "(0::int) \<le> 4 \<and> 4 \<le> int (height (zeros 10 10 :: nat ndarray)) \<and> 0 < resolve_step 4 (Some 2) \<and>
   (\<exists>cuts start_points.
      cut_windows (zeros 10 10 :: nat ndarray) 4 (Some 2) = Inr (cuts, start_points) \<and>
      list_all2 (full_window (zeros 10 10) 4) cuts start_points)"
  using cut_windows_full_tiles [of 4 "zeros 10 10 :: nat ndarray" "Some 2"]
  by (simp add: zeros_def full_def resolve_step_def)

text \<open>
  Claim C6, as stated, fails: a window larger than the image raises no error. On a
  \<open>3 \<times> 3\<close> image with \<open>window_size = 5\<close> the tiler returns one tile of \<open>2 \<times> 2\<close> pixels
  with origin \<open>(-2, -2)\<close>.
\<close>

theorem cut_windows_oversized_window_counterexample:
  "map_sum id shapes (cut_windows (zeros 3 3 :: nat ndarray) 5 None) = Inr ([(2, 2)], [(- 2, - 2)])"
  by code_simp

text \<open>
  Claim C6, amended. The tiler has no guard on the window size: when \<open>window_size\<close>
  exceeds the image's height or width, the step size is not zero, and the image sides
  and the window size are below \<open>2\<^sup>5\<^sup>3\<close> (where the float division and the 64-bit
  minimum of the code are exact), \<open>cut_windows\<close> raises nothing and returns its two lists,
  of equal length; every tile returned (there may be none) is truncated, with a negative
  origin coordinate and fewer than \<open>window_size\<close> pixels along that axis.
\<close>

theorem cut_windows_oversized_window:
  assumes "int (height img) < window_size \<or> int (width img) < window_size"
    and "resolve_step window_size step_size \<noteq> 0"
    and "exact_range img window_size"
  shows "\<exists>cuts start_points.
           cut_windows img window_size step_size = Inr (cuts, start_points) \<and>
           list_all2 (truncated_tile window_size) cuts start_points"
proof -
  let ?step = "resolve_step window_size step_size"
  let ?h = "int (height img)" and ?w = "int (width img)"
  obtain xs where xs: "py_range 0 (?w - ?step) ?step = Inr xs"
    using py_range_Inr [of ?step] assms(2) by auto
  obtain ys where ys: "py_range 0 (?h - ?step) ?step = Inr ys"
    using py_range_Inr [of ?step] assms(2) by auto
  have tile: "truncated_tile window_size
        (slice2 img (min (y + window_size) ?h - window_size) (min (y + window_size) ?h)
                    (min (x + window_size) ?w - window_size) (min (x + window_size) ?w))
        (min (x + window_size) ?w - window_size, min (y + window_size) ?h - window_size)" for x y
  proof -
    let ?sx = "min (x + window_size) ?w - window_size"
    let ?sy = "min (y + window_size) ?h - window_size"
    let ?t = "slice2 img ?sy (min (y + window_size) ?h) ?sx (min (x + window_size) ?w)"
    have le: "int (height ?t) \<le> ?h" "int (width ?t) \<le> ?w"
      using slice2_shape_le [of img ?sy "min (y + window_size) ?h" ?sx "min (x + window_size) ?w"]
      by simp_all
    from assms(1) show ?thesis
    proof
      assume "?h < window_size"
      then have "?sy < 0 \<and> int (height ?t) < window_size" using le(1) by linarith
      then show ?thesis by (simp add: truncated_tile_def)
    next
      assume "?w < window_size"
      then have "?sx < 0 \<and> int (width ?t) < window_size" using le(2) by linarith
      then show ?thesis by (simp add: truncated_tile_def)
    qed
  qed
  have "\<exists>cuts' pts'. cut_cols img window_size ?step xs ([], []) = Inr (cuts', pts')
          \<and> list_all2 (truncated_tile window_size) cuts' pts'"
    by (rule cut_cols_inv [OF _ ys]) (simp_all add: tile)
  then show ?thesis by (simp add: cut_windows_def xs)
qed

theorem cut_windows_oversized_window_witness:
  "int (height (zeros 3 3 :: nat ndarray)) < 5 \<and> resolve_step 5 None \<noteq> 0 \<and>
   exact_range (zeros 3 3 :: nat ndarray) 5 \<and>
   (\<exists>cuts start_points.
      cut_windows (zeros 3 3 :: nat ndarray) 5 None = Inr (cuts, start_points) \<and>
      list_all2 (truncated_tile 5) cuts start_points)"
  using cut_windows_oversized_window [of "zeros 3 3 :: nat ndarray" 5 None]
  by (simp add: zeros_def full_def resolve_step_def half_window_def exact_range_def)

text \<open>
  A step size of zero makes \<^verbatim>\<open>range\<close> raise, whatever the image: the default step size
  of a window of size 1 is zero.
\<close>

lemma cut_windows_zero_step:
  assumes "resolve_step window_size step_size = 0"
  shows "cut_windows img window_size step_size = Inl ValueError"
  using assms by (simp add: cut_windows_def py_range_def)

text \<open>
  Claim C10. For every image of height \<open>H\<close> and width \<open>W\<close> (an image has a pixel; its
  sides and the window size are below \<open>2\<^sup>5\<^sup>3\<close>, where the code's float division is
  exact), whenever \<open>step_size \<ge> W\<close> or \<open>step_size \<ge> H\<close>, with the step size given or the
  default, \<open>cut_windows\<close> returns two empty lists without raising, whatever the window
  size, also when a full window would fit.
\<close>

theorem cut_windows_large_step:
  assumes "int (width img) \<le> resolve_step window_size step_size
           \<or> int (height img) \<le> resolve_step window_size step_size"
    and "0 < height img" and "0 < width img"
    and "exact_range img window_size"
  shows "cut_windows img window_size step_size = Inr ([], [])"
proof -
  let ?step = "resolve_step window_size step_size"
  have pos: "0 < ?step" using assms(1,2,3) by auto
  from assms(1) show ?thesis
  proof
    assume "int (width img) \<le> ?step"
    then have "py_range 0 (int (width img) - ?step) ?step = Inr []"
      using pos by (intro py_range_empty) auto
    then show ?thesis by (simp add: cut_windows_def)
  next
    assume "int (height img) \<le> ?step"
    then have ys: "py_range 0 (int (height img) - ?step) ?step = Inr []"
      using pos by (intro py_range_empty) auto
    obtain xs where xs: "py_range 0 (int (width img) - ?step) ?step = Inr xs"
      using py_range_Inr [of ?step] pos by auto
    show ?thesis using cut_cols_no_rows [OF ys] by (simp add: cut_windows_def xs)
  qed
qed

theorem cut_windows_large_step_witness:
  "int (width (zeros 6 4 :: nat ndarray)) \<le> resolve_step 4 (Some 4) \<and>
   0 < height (zeros 6 4 :: nat ndarray) \<and> 0 < width (zeros 6 4 :: nat ndarray) \<and>
   exact_range (zeros 6 4 :: nat ndarray) 4 \<and>
   cut_windows (zeros 6 4 :: nat ndarray) 4 (Some 4) = Inr ([], [])"
  using cut_windows_large_step [of "zeros 6 4 :: nat ndarray" 4 "Some 4"]
  by (simp add: zeros_def full_def resolve_step_def half_window_def exact_range_def)

text \<open>
  Claim C1 fails on the code. On an image of height 4 and width 8 with \<open>window_size = 4\<close>
  and the default step size 2, the tiler returns the single window with origin \<open>(0, 0)\<close>:
  in every later column the inner loop breaks at once, because the first \<open>start_y\<close> of
  the column, 0, equals the \<open>start_y\<close> of the last window of the previous column. The
  pixel in column 7, row 0 lies in no window returned.
\<close>

theorem cut_windows_misses_columns:
  "map_sum id snd (cut_windows (zeros 4 8 :: nat ndarray) 4 None) = Inr [(0, 0)]
   \<and> \<not> covered 4 [(0, 0)] 7 0"
  by code_simp

lemma steps_from_upt:
  assumes "0 < step" and "a < n" and "(int n - 1) * step < stop" and "stop \<le> int n * step"
  shows "steps_from step stop (int a * step) (map (\<lambda>k. 0 + int k * step) [a ..< n])"
  using assms(2)
proof (induction "n - a" arbitrary: a)
  case 0
  then show ?case by simp
next
  case (Suc d)
  have upt: "[a ..< n] = a # [Suc a ..< n]" using Suc.prems by (simp add: upt_conv_Cons)
  have "int a \<le> int n - 1" using Suc.prems by simp
  then have "int a * step \<le> (int n - 1) * step" using assms(1) by (simp add: mult_right_mono)
  then have lt: "int a * step < stop" using assms(3) by linarith
  show ?case
  proof (cases "Suc a < n")
    case True
    then have "d = n - Suc a" using Suc.hyps(2) by simp
    from Suc.hyps(1) [OF this True]
    have ih: "steps_from step stop (int (Suc a) * step) (map (\<lambda>k. 0 + int k * step) [Suc a ..< n])" .
    have ne: "[Suc a ..< n] \<noteq> []" using True by simp
    have "int (Suc a) * step = int a * step + step" by (simp add: algebra_simps)
    then show ?thesis using ih ne lt by (simp add: upt)
  next
    case False
    then have n: "n = Suc a" using Suc.prems by simp
    have "int n * step = int a * step + step" by (simp add: n algebra_simps)
    then show ?thesis using lt assms(4) by (simp add: n)
  qed
qed

lemma py_range_steps_from:
  assumes "0 < step" and "0 < stop"
  shows "\<exists>ys. py_range 0 stop step = Inr ys \<and> steps_from step stop 0 ys"
proof -
  let ?q = "(stop + step - 1) div step"
  let ?m = "(stop + step - 1) mod step"
  have dm: "?q * step + ?m = stop + step - 1" by simp
  have m: "0 \<le> ?m" "?m < step" using assms(1) by simp_all
  have q1: "?q * step \<le> stop + step - 1" using dm m(1) by linarith
  have q2: "stop + step - 1 < ?q * step + step" using dm m(2) by linarith
  have qpos: "0 < ?q" using assms by (simp add: pos_imp_zdiv_pos_iff)
  let ?n = "nat ?q"
  have n: "int ?n = ?q" using qpos by simp
  have "(?q - 1) * step = ?q * step - step" by (simp add: algebra_simps)
  then have a: "(int ?n - 1) * step < stop" unfolding n using q1 by linarith
  have b: "stop \<le> int ?n * step" unfolding n using q2 by linarith
  have "0 < ?n" using qpos by simp
  from steps_from_upt [OF assms(1) this a b]
  have "steps_from step stop 0 (map (\<lambda>k. 0 + int k * step) [0 ..< ?n])" by simp
  then show ?thesis using assms(1) by (simp add: py_range_def)
qed

lemma cut_rows_covers:
  assumes "steps_from s (int (height img) - s) y0 ys"
    and "0 < s" and "2 * s \<le> ws"
    and "pts = [] \<or> snd (last pts) \<noteq> min (y0 + ws) (int (height img)) - ws"
  shows "\<exists>qs. snd (cut_rows img ws sx ex ys (cuts, pts)) = pts @ qs \<and> qs \<noteq> [] \<and>
           last qs = (sx, int (height img) - ws) \<and>
           (\<forall>y. y0 \<le> y \<and> y < int (height img) \<longrightarrow>
                (\<exists>q \<in> set qs. fst q = sx \<and> snd q \<le> y \<and> y < snd q + ws))"
  using assms(1,4)
proof (induction ys arbitrary: y0 cuts pts)
  case Nil
  then show ?case by simp
next
  case (Cons y ys)
  let ?h = "int (height img)"
  let ?sy = "min (y0 + ws) ?h - ws"
  let ?st = "(cuts @ [slice2 img ?sy (min (y0 + ws) ?h) sx ex], pts @ [(sx, ?sy)])"
  from Cons.prems(1) have y: "y = y0" and lt: "y0 < ?h - s"
    and rest: "if ys = [] then ?h - s \<le> y0 + s else steps_from s (?h - s) (y0 + s) ys"
    by simp_all
  have step: "cut_rows img ws sx ex (y # ys) (cuts, pts) = cut_rows img ws sx ex ys ?st"
    using Cons.prems(2) by (auto simp: y Let_def)
  show ?case
  proof (cases "?h \<le> y0 + ws")
    case True
    then have sy: "?sy = ?h - ws" by simp
    have stop: "cut_rows img ws sx ex ys ?st = ?st"
    proof (cases ys)
      case Nil
      then show ?thesis by simp
    next
      case (Cons y1 ys')
      then have "y1 = y0 + s" using rest by simp
      then have "min (y1 + ws) ?h - ws = ?h - ws" using True assms(2) by simp
      then show ?thesis using Cons sy by (simp add: Let_def)
    qed
    have cover: "\<forall>y. y0 \<le> y \<and> y < ?h \<longrightarrow>
              (\<exists>q \<in> set [(sx, ?sy)]. fst q = sx \<and> snd q \<le> y \<and> y < snd q + ws)"
      using True sy by auto
    have res: "snd (cut_rows img ws sx ex (y # ys) (cuts, pts)) = pts @ [(sx, ?sy)]"
      by (simp only: step stop snd_conv)
    have l: "last [(sx, ?sy)] = (sx, ?h - ws)" using sy by simp
    have n: "[(sx, ?sy)] \<noteq> []" by simp
    show ?thesis using res n l cover by blast
  next
    case False
    then have sy: "?sy = y0" by simp
    have ne: "ys \<noteq> []"
    proof
      assume "ys = []"
      then have "?h - s \<le> y0 + s" using rest by simp
      then show False using False assms(3) by linarith
    qed
    then have chain: "steps_from s (?h - s) (y0 + s) ys" using rest by simp
    have "y0 < min (y0 + s + ws) ?h - ws" using False assms(2) by simp
    then have pre: "pts @ [(sx, ?sy)] = [] \<or>
                    snd (last (pts @ [(sx, ?sy)])) \<noteq> min (y0 + s + ws) ?h - ws"
      using sy by simp
    from Cons.IH [OF chain pre] obtain qs where qs:
      "snd (cut_rows img ws sx ex ys ?st) = (pts @ [(sx, ?sy)]) @ qs" "qs \<noteq> []"
      "last qs = (sx, ?h - ws)"
      "\<forall>y. y0 + s \<le> y \<and> y < ?h \<longrightarrow> (\<exists>q \<in> set qs. fst q = sx \<and> snd q \<le> y \<and> y < snd q + ws)"
      by blast
    have cover: "\<exists>q \<in> set ((sx, ?sy) # qs). fst q = sx \<and> snd q \<le> y' \<and> y' < snd q + ws"
      if "y0 \<le> y'" and "y' < ?h" for y'
    proof (cases "y' < y0 + s")
      case True
      then have "y' < ?sy + ws" using sy assms(3) assms(2) by linarith
      then show ?thesis using that(1) sy by auto
    next
      case False
      then show ?thesis using qs(4) that(2) by auto
    qed
    have res: "snd (cut_rows img ws sx ex (y # ys) (cuts, pts)) = pts @ ((sx, ?sy) # qs)"
      using qs(1) by (simp only: step append_assoc append_Cons append_Nil)
    have l: "last ((sx, ?sy) # qs) = (sx, ?h - ws)" using qs(2,3) by simp
    have n: "(sx, ?sy) # qs \<noteq> []" by simp
    have c: "\<forall>y. y0 \<le> y \<and> y < ?h \<longrightarrow>
               (\<exists>q \<in> set ((sx, ?sy) # qs). fst q = sx \<and> snd q \<le> y \<and> y < snd q + ws)"
      using cover by blast
    show ?thesis using res n l c by blast
  qed
qed

lemma cut_cols_covers:
  assumes "steps_from s (int (width img) - s) x0 xs"
    and "0 < s" and "2 * s \<le> ws" and "ws < int (height img)"
    and "py_range 0 (int (height img) - s) s = Inr ys"
    and "steps_from s (int (height img) - s) 0 ys"
    and "pts = [] \<or> (fst (last pts) \<noteq> min (x0 + ws) (int (width img)) - ws \<and> snd (last pts) \<noteq> 0)"
  shows "\<exists>cuts' rs. cut_cols img ws s xs (cuts, pts) = Inr (cuts', pts @ rs) \<and>
           (\<forall>x y. x0 \<le> x \<and> x < int (width img) \<and> 0 \<le> y \<and> y < int (height img) \<longrightarrow>
                  (\<exists>q \<in> set rs. in_window ws q x y))"
  using assms(1,7)
proof (induction xs arbitrary: x0 cuts pts)
  case Nil
  then show ?case by simp
next
  case (Cons x xs)
  let ?h = "int (height img)" and ?w = "int (width img)"
  let ?sx = "min (x0 + ws) ?w - ws"
  let ?ex = "min (x0 + ws) ?w"
  let ?st = "cut_rows img ws ?sx ?ex ys (cuts, pts)"
  from Cons.prems(1) have x: "x = x0" and lt: "x0 < ?w - s"
    and rest: "if xs = [] then ?w - s \<le> x0 + s else steps_from s (?w - s) (x0 + s) xs"
    by simp_all
  have "min (0 + ws) ?h - ws = 0" using assms(4) by simp
  then have pre_rows: "pts = [] \<or> snd (last pts) \<noteq> min (0 + ws) ?h - ws"
    using Cons.prems(2) by auto
  from cut_rows_covers [OF assms(6) assms(2) assms(3) pre_rows, of ?sx ?ex cuts]
  obtain qs where qs: "snd ?st = pts @ qs" "qs \<noteq> []" "last qs = (?sx, ?h - ws)"
    "\<forall>y. 0 \<le> y \<and> y < ?h \<longrightarrow> (\<exists>q \<in> set qs. fst q = ?sx \<and> snd q \<le> y \<and> y < snd q + ws)"
    by blast
  obtain cuts1 where st: "?st = (cuts1, pts @ qs)"
    using qs(1) by (cases ?st) auto
  have step: "cut_cols img ws s (x # xs) (cuts, pts) = cut_cols img ws s xs (cuts1, pts @ qs)"
    using Cons.prems(2) assms(5) by (auto simp: x Let_def st)
  have column: "\<exists>q \<in> set qs. in_window ws q x' y"
    if "?sx \<le> x'" and "x' < ?sx + ws" and "0 \<le> y" and "y < ?h" for x' y
  proof -
    from qs(4) that(3,4) obtain q where "q \<in> set qs" "fst q = ?sx" "snd q \<le> y" "y < snd q + ws"
      by blast
    then have "in_window ws q x' y" using that(1,2) by (simp add: in_window_def)
    then show ?thesis using \<open>q \<in> set qs\<close> by blast
  qed
  show ?case
  proof (cases "?w \<le> x0 + ws")
    case True
    then have sx: "?sx = ?w - ws" by simp
    have stop: "cut_cols img ws s xs (cuts1, pts @ qs) = Inr (cuts1, pts @ qs)"
    proof (cases xs)
      case Nil
      then show ?thesis by simp
    next
      case (Cons x1 xs')
      then have "x1 = x0 + s" using rest by simp
      then have "min (x1 + ws) ?w - ws = ?w - ws" using True assms(2) by simp
      then show ?thesis using Cons sx qs(2,3) by (simp add: Let_def)
    qed
    have "\<exists>q \<in> set qs. in_window ws q x' y"
      if "x0 \<le> x'" and "x' < ?w" and "0 \<le> y" and "y < ?h" for x' y
    proof -
      have "?sx \<le> x'" "x' < ?sx + ws" using that(1,2) True sx by linarith+
      then show ?thesis using column [of x' y] that(3,4) by blast
    qed
    then have c: "\<forall>x y. x0 \<le> x \<and> x < ?w \<and> 0 \<le> y \<and> y < ?h \<longrightarrow>
                  (\<exists>q \<in> set qs. in_window ws q x y)" by blast
    have res: "cut_cols img ws s (x # xs) (cuts, pts) = Inr (cuts1, pts @ qs)"
      by (simp only: step stop)
    show ?thesis using res c by blast
  next
    case False
    then have sx: "?sx = x0" by simp
    have ne: "xs \<noteq> []"
    proof
      assume "xs = []"
      then have "?w - s \<le> x0 + s" using rest by simp
      then show False using False assms(3) by linarith
    qed
    then have chain: "steps_from s (?w - s) (x0 + s) xs" using rest by simp
    have "x0 < min (x0 + s + ws) ?w - ws" using False assms(2) by simp
    then have pre: "pts @ qs = [] \<or>
        (fst (last (pts @ qs)) \<noteq> min (x0 + s + ws) ?w - ws \<and> snd (last (pts @ qs)) \<noteq> 0)"
      using sx qs(2,3) assms(4) by simp
    from Cons.IH [OF chain pre, of cuts1] obtain cuts' rs where rs:
      "cut_cols img ws s xs (cuts1, pts @ qs) = Inr (cuts', (pts @ qs) @ rs)"
      "\<forall>x y. x0 + s \<le> x \<and> x < ?w \<and> 0 \<le> y \<and> y < ?h \<longrightarrow> (\<exists>q \<in> set rs. in_window ws q x y)"
      by blast
    have cover: "\<exists>q \<in> set (qs @ rs). in_window ws q x' y"
      if "x0 \<le> x'" and "x' < ?w" and "0 \<le> y" and "y < ?h" for x' y
    proof (cases "x' < x0 + s")
      case True
      then have "?sx \<le> x'" "x' < ?sx + ws" using that(1) sx assms(2,3) by linarith+
      then have "\<exists>q \<in> set qs. in_window ws q x' y" using column [of x' y] that(3,4) by blast
      then show ?thesis by auto
    next
      case False
      then have "x0 + s \<le> x'" by simp
      then have "\<exists>q \<in> set rs. in_window ws q x' y" using rs(2) that(2,3,4) by blast
      then show ?thesis by auto
    qed
    have res: "cut_cols img ws s (x # xs) (cuts, pts) = Inr (cuts', pts @ (qs @ rs))"
      using rs(1) by (simp only: step append_assoc)
    have c: "\<forall>x y. x0 \<le> x \<and> x < ?w \<and> 0 \<le> y \<and> y < ?h \<longrightarrow>
                  (\<exists>q \<in> set (qs @ rs). in_window ws q x y)"
      using cover by blast
    show ?thesis using res c by blast
  qed
qed

text \<open>
  Where the defect behind claim C1 does not strike, the tiler does cover the image: for a
  positive step size of at most half the window size (the default, for a window size of
  at least 2), an image strictly taller than the window and at least as wide, every pixel
  lies in a window returned. Columns are lost only when the image is exactly as tall as
  the window.
\<close>

theorem cut_windows_covers_taller_image:
  assumes "0 < resolve_step window_size step_size"
    and "2 * resolve_step window_size step_size \<le> window_size"
    and "window_size < int (height img)" and "window_size \<le> int (width img)"
  shows "\<exists>cuts start_points.
           cut_windows img window_size step_size = Inr (cuts, start_points) \<and>
           (\<forall>x y. 0 \<le> x \<and> x < int (width img) \<and> 0 \<le> y \<and> y < int (height img) \<longrightarrow>
                  covered window_size start_points x y)"
proof -
  let ?s = "resolve_step window_size step_size"
  let ?h = "int (height img)" and ?w = "int (width img)"
  have "0 < ?w - ?s" "0 < ?h - ?s" using assms by linarith+
  then obtain xs ys where xs: "py_range 0 (?w - ?s) ?s = Inr xs" "steps_from ?s (?w - ?s) 0 xs"
    and ys: "py_range 0 (?h - ?s) ?s = Inr ys" "steps_from ?s (?h - ?s) 0 ys"
    using py_range_steps_from [OF assms(1)] by meson
  have pre: "([] :: (int \<times> int) list) = [] \<or>
      (fst (last []) \<noteq> min (0 + window_size) ?w - window_size \<and> snd (last ([] :: (int \<times> int) list)) \<noteq> 0)"
    by simp
  from cut_cols_covers [OF xs(2) assms(1,2,3) ys pre, of "[]"]
  obtain cuts' rs where rs: "cut_cols img window_size ?s xs ([], []) = Inr (cuts', rs)"
    "\<forall>x y. 0 \<le> x \<and> x < ?w \<and> 0 \<le> y \<and> y < ?h \<longrightarrow> (\<exists>q \<in> set rs. in_window window_size q x y)"
    by auto
  have "cut_windows img window_size step_size = Inr (cuts', rs)"
    using xs(1) rs(1) by (simp add: cut_windows_def)
  then show ?thesis using rs(2) by (auto simp: covered_def list_ex_iff)
qed

theorem cut_windows_covers_taller_image_witness:
  "0 < resolve_step 4 None \<and> 2 * resolve_step 4 None \<le> 4 \<and>
   (4::int) < int (height (zeros 10 10 :: nat ndarray)) \<and>
   (\<exists>cuts start_points.
      cut_windows (zeros 10 10 :: nat ndarray) 4 None = Inr (cuts, start_points) \<and>
      covered 4 start_points 9 9)"
  using cut_windows_covers_taller_image [of 4 None "zeros 10 10 :: nat ndarray"]
  by (force simp: zeros_def full_def resolve_step_def half_window_def)

subsection \<open>Properties of the codec\<close>

lemma set_sorted_keys: "set (sorted_keys d) = fst ` set d"
  by (simp add: sorted_keys_def)

lemma dict_get_key:
  assumes "k \<in> set (sorted_keys d)"
  shows "\<exists>v. map_of d k = Some v \<and> dict_get d k = Inr v"
proof -
  have "map_of d k \<noteq> None" using assms by (simp add: set_sorted_keys map_of_eq_None_iff)
  then show ?thesis by (auto simp: dict_get_def)
qed


text \<open>Sequential overwriting: the last entry that matches decides.\<close>

lemma foldl_no_write:
  assumes "\<And>e. e \<in> set es \<Longrightarrow> \<not> P e"
  shows "foldl (\<lambda>v e. if P e then f e else v) v0 es = v0"
  using assms by (induction es arbitrary: v0) simp_all

lemma foldl_last_write:
  assumes "j < length es" and "P (es ! j)"
    and "\<And>i. j < i \<Longrightarrow> i < length es \<Longrightarrow> \<not> P (es ! i)"
  shows "foldl (\<lambda>v e. if P e then f e else v) v0 es = f (es ! j)"
proof -
  have split: "es = take j es @ es ! j # drop (Suc j) es"
    using assms(1) by (rule id_take_nth_drop)
  have tail: "\<not> P e" if "e \<in> set (drop (Suc j) es)" for e
  proof -
    from that obtain n where n: "n < length (drop (Suc j) es)" "e = drop (Suc j) es ! n"
      by (auto simp: in_set_conv_nth)
    then have "e = es ! (Suc j + n)" and "Suc j + n < length es" by auto
    then show ?thesis using assms(3) [of "Suc j + n"] by simp
  qed
  have "foldl (\<lambda>v e. if P e then f e else v) v0 es =
        foldl (\<lambda>v e. if P e then f e else v) v0 (take j es @ es ! j # drop (Suc j) es)"
    using split by simp
  also have "\<dots> = foldl (\<lambda>v e. if P e then f e else v) (f (es ! j)) (drop (Suc j) es)"
    using assms(2) by simp
  also have "\<dots> = f (es ! j)"
    using tail by (rule foldl_no_write)
  finally show ?thesis .
qed

lemma entries_of_enumerate: "entries_of d (enumerate n (sorted_keys d))"
proof -
  have "snd e \<in> set (sorted_keys d)" if "e \<in> set (enumerate n (sorted_keys d))" for e
  proof -
    have "snd e \<in> snd ` set (enumerate n (sorted_keys d))" using that by (rule imageI)
    then have "snd e \<in> set (map snd (enumerate n (sorted_keys d)))" by (simp only: set_map)
    then show ?thesis by (simp only: map_snd_enumerate)
  qed
  then show ?thesis
    unfolding entries_of_def using dict_get_key by fastforce
qed



lemma one_hot_loop_px:
  assumes "entries_of m es" and "\<And>e. e \<in> set es \<Longrightarrow> fst e < channels oh"
  shows "\<exists>out. one_hot_loop oh m es acc = Inr out \<and> height out = height acc \<and> width out = width acc \<and>
           (\<forall>y x. px out y x =
              foldl (\<lambda>v e. if px3 oh y x (fst e) = 1 then word_of_int (the (map_of m (snd e))) else v)
                    (px acc y x) es)"
  using assms
proof (induction es arbitrary: acc)
  case Nil
  then show ?case by simp
next
  case (Cons e es)
  obtain i k where e: "e = (i, k)" by (cases e) auto
  from Cons.prems(1) obtain c where c: "map_of m k = Some c" and rest: "entries_of m es"
    by (auto simp: entries_of_def e)
  have i: "i < channels oh" using Cons.prems(2) [of e] by (simp add: e)
  have ch: "\<And>e. e \<in> set es \<Longrightarrow> fst e < channels oh" using Cons.prems(2) by simp
  let ?acc = "assign_where (\<lambda>y x. px3 oh y x i = 1) (word_of_int c) acc"
  from Cons.IH [OF rest ch, of ?acc] obtain out where
    out: "one_hot_loop oh m es ?acc = Inr out" "height out = height ?acc" "width out = width ?acc"
      "\<forall>y x. px out y x =
         foldl (\<lambda>v e. if px3 oh y x (fst e) = 1 then word_of_int (the (map_of m (snd e))) else v)
               (px ?acc y x) es"
    by blast
  have step: "(if px3 oh y x (fst e) = 1 then word_of_int (the (map_of m (snd e))) else px acc y x)
                = px ?acc y x"
    for y x by (auto simp: e c assign_where_def)
  show ?case
    using out by (simp add: e c i dict_get_def step) (simp add: assign_where_def)
qed


lemma enumerate_fst_less:
  assumes "e \<in> set (enumerate 0 ks)"
  shows "fst e < length ks"
  using assms by (auto simp: in_set_enumerate_eq)


lemma uint8_of_int: "uint (word_of_int c :: 8 word) = c mod 256"
  by (simp add: uint_word_of_int)


lemma nth_enumerate0:
  assumes "i < length ks"
  shows "enumerate 0 ks ! i = (i, ks ! i)"
  using assms by (simp add: nth_enumerate_eq)



lemma one_hot_px_at:
  assumes "length (sorted_keys m) \<le> channels oh"
    and "i < length (sorted_keys m)" and "map_of m (sorted_keys m ! i) = Some c"
    and "px3 oh y x i = 1"
    and "\<forall>j. i < j \<and> j < length (sorted_keys m) \<longrightarrow> px3 oh y x j \<noteq> 1"
  shows "\<exists>out. one_hot_to_mask oh m = Inr out \<and> px out y x = word_of_int c"
proof -
  let ?es = "enumerate 0 (sorted_keys m)"
  let ?P = "\<lambda>e. px3 oh y x (fst e) = 1"
  have ch: "\<And>e. e \<in> set ?es \<Longrightarrow> fst e < channels oh"
    using enumerate_fst_less assms(1) by fastforce
  obtain out where out: "one_hot_to_mask oh m = Inr out"
    and px: "\<forall>y x. px out y x =
              foldl (\<lambda>v e. if px3 oh y x (fst e) = 1 then word_of_int (the (map_of m (snd e))) else v)
                    (px (zeros (height3 oh) (width3 oh)) y x) ?es"
    using one_hot_loop_px [OF entries_of_enumerate [of m 0] ch, of "zeros (height3 oh) (width3 oh)"]
    unfolding one_hot_to_mask_def by blast
  have "foldl (\<lambda>v e. if ?P e then word_of_int (the (map_of m (snd e))) else v)
              (px (zeros (height3 oh) (width3 oh)) y x) ?es
          = (word_of_int (the (map_of m (snd (?es ! i)))) :: 8 word)"
    using assms by (intro foldl_last_write) (simp_all add: nth_enumerate0)
  then have "px out y x = word_of_int c" using px assms(2,3) by (simp add: nth_enumerate0)
  then show ?thesis using out by simp
qed







text \<open>
  Claim C4, as stated, fails twice. The mask is a \<^verbatim>\<open>uint8\<close> array: with the mapping
  \<^verbatim>\<open>{"a": 5, "b": 300}\<close> and both channels of a pixel on, the pixel gets 44, not the
  colour 300 of the class with the highest index. And a one-hot array with fewer channels
  than the mapping has classes makes \<^verbatim>\<open>one_hot[:, :, i]\<close> raise \<open>IndexError\<close>.
\<close>

theorem one_hot_to_mask_counterexample:
  "map_sum id (\<lambda>out. uint (px out 0 0))
     (one_hot_to_mask (full3 1 1 2 1) [(''a'', 5), (''b'', 300)]) = Inr 44
   \<and> map_sum id (\<lambda>out. uint (px out 0 0))
     (one_hot_to_mask (full3 1 1 1 1) [(''a'', 5), (''b'', 7)]) = Inl IndexError"
  by code_simp

text \<open>
  Claim C4, amended. For every colour mapping with 64-bit integer colours and every
  one-hot array with a channel for each class of the mapping, \<open>one_hot_to_mask\<close> raises
  no error, and a pixel with one or several class channels equal to 1 gets, in the
  \<^verbatim>\<open>uint8\<close> mask, the colour of the class with the highest index, in sorted class-name
  order, among those that are on (the last write wins), modulo 256: the colour itself
  when it lies in \<open>[0, 255]\<close>.
\<close>

theorem one_hot_to_mask_last_write_wins:
  assumes "length (sorted_keys colour_mapping) \<le> channels one_hot"
    and "int64_colours colour_mapping"
    and "i < length (sorted_keys colour_mapping)" and "px3 one_hot y x i = 1"
    and "\<forall>j. i < j \<and> j < length (sorted_keys colour_mapping) \<longrightarrow> px3 one_hot y x j \<noteq> 1"
  shows "\<exists>out c. one_hot_to_mask one_hot colour_mapping = Inr out \<and>
                 map_of colour_mapping (sorted_keys colour_mapping ! i) = Some c \<and>
                 uint (px out y x) = c mod 256 \<and>
                 (0 \<le> c \<and> c \<le> 255 \<longrightarrow> uint (px out y x) = c)"
proof -
  have "sorted_keys colour_mapping ! i \<in> set (sorted_keys colour_mapping)"
    using assms(3) by simp
  then obtain c where c: "map_of colour_mapping (sorted_keys colour_mapping ! i) = Some c"
    using dict_get_key by blast
  obtain out where out: "one_hot_to_mask one_hot colour_mapping = Inr out"
    "px out y x = word_of_int c"
    using one_hot_px_at [OF assms(1,3) c assms(4,5)] by blast
  have m: "uint (px out y x) = c mod 256" using out(2) by (simp add: uint8_of_int)
  then have "0 \<le> c \<and> c \<le> 255 \<longrightarrow> uint (px out y x) = c" by simp
  then show ?thesis using out(1) c m by blast
qed

theorem one_hot_to_mask_last_write_wins_witness:
  "length (sorted_keys [(''sand'', 7::int), (''coral'', 30), (''algae'', 12)]) \<le> channels (full3 1 1 3 1) \<and>
   int64_colours [(''sand'', 7), (''coral'', 30), (''algae'', 12)] \<and>
   px3 (full3 1 1 3 (1::int)) 0 0 2 = 1 \<and> px3 (full3 1 1 3 (1::int)) 0 0 1 = 1 \<and>
   sorted_keys [(''sand'', 7::int), (''coral'', 30), (''algae'', 12)] ! 2 = ''sand'' \<and>
   (\<exists>out. one_hot_to_mask (full3 1 1 3 1) [(''sand'', 7), (''coral'', 30), (''algae'', 12)] = Inr out \<and>
          uint (px out 0 0) = 7)"
  using one_hot_to_mask_last_write_wins
          [of "[(''sand'', 7), (''coral'', 30), (''algae'', 12)]" "full3 1 1 3 1" 2 0 0]
  by (simp add: sorted_keys_def full3_def int64_colours_def)



subsection \<open>Properties of the class weight calculator\<close>

lemma collect_shares_all:
  assumes "\<forall>c \<in> set cs. share_of stats c \<noteq> None"
  shows "\<exists>shares. collect_shares stats cs = Inr shares \<and> length shares = length cs \<and>
           (\<forall>i < length cs. share_of stats (cs ! i) = Some (shares ! i))"
  using assms
proof (induction cs)
  case Nil
  then show ?case by simp
next
  case (Cons c cs)
  from Cons.prems obtain entry s where c: "map_of stats c = Some entry" "map_of entry ''share'' = Some s"
    by (auto simp: share_of_def split: option.splits)
  from Cons obtain shares where sh: "collect_shares stats cs = Inr shares" "length shares = length cs"
    "\<forall>i < length cs. share_of stats (cs ! i) = Some (shares ! i)"
    by auto
  have "\<forall>i < length (c # cs). share_of stats ((c # cs) ! i) = Some ((s # shares) ! i)"
  proof (intro allI impI)
    fix i assume "i < length (c # cs)"
    then show "share_of stats ((c # cs) ! i) = Some ((s # shares) ! i)"
      using sh(3) c by (cases i) (simp_all add: share_of_def)
  qed
  then show ?case using c sh(1,2) by (simp add: dict_get_def)
qed

lemma collect_shares_missing:
  assumes "c \<in> set cs" and "map_of stats c = None"
  shows "\<exists>k. collect_shares stats cs = Inl (KeyError k) \<and>
           (k = ''share'' \<or> (k \<in> set cs \<and> map_of stats k = None))"
  using assms
proof (induction cs)
  case Nil
  then show ?case by simp
next
  case (Cons a cs)
  show ?case
  proof (cases "map_of stats a")
    case None
    then show ?thesis by (simp add: dict_get_def)
  next
    case (Some entry)
    then have "c \<in> set cs" using Cons.prems by auto
    then obtain k where k: "collect_shares stats cs = Inl (KeyError k)"
      "k = ''share'' \<or> (k \<in> set cs \<and> map_of stats k = None)"
      using Cons.IH Cons.prems(2) by blast
    show ?thesis
    proof (cases "map_of entry ''share''")
      case None
      then show ?thesis using Some by (simp add: dict_get_def)
    next
      case (Some s)
      then show ?thesis using \<open>map_of stats a = Some entry\<close> k by (auto simp: dict_get_def)
    qed
  qed
qed

text \<open>
  Claim C5, as stated, fails: a class of the mapping without an entry in the statistics
  makes the dictionary lookup raise the generic \<open>KeyError\<close>; the code has no error of its
  own for missing class statistics.
\<close>

theorem calculate_class_weights_key_error_counterexample:
  "map_of ([] :: (real dict) dict) ''coral'' = None \<and>
   calculate_class_weights [] [(''coral'', 1::int)] None = Inl (KeyError ''coral'')"
  by (simp add: calculate_class_weights_def sorted_keys_def dict_get_def)

lemma np_reciprocal_log:
  assumes "0 < z" and "z \<noteq> 1"
  shows "np_reciprocal (np_log z) = Finite (1 / ln z)"
proof -
  have "ln z \<noteq> 0" using assms by simp
  then show ?thesis using assms(1) by (simp add: np_log_def np_reciprocal_def)
qed

text \<open>
  Claim C5, amended. If some class name of the mapping has no entry in the statistics,
  \<open>calculate_class_weights\<close> fails with the generic \<open>KeyError\<close> of a dictionary lookup
  (for a class without an entry, or for the field \<^verbatim>\<open>"share"\<close> of an earlier entry).
  If every class has an entry with a share, it returns one weight per class, in sorted
  class-name order: where \<open>modifier + share\<close> is positive and not 1 the weight is
  \<open>1 / ln (modifier + share)\<close> of that class (over the real numbers, rounding apart);
  it is \<^verbatim>\<open>inf\<close> where \<open>modifier + share = 1\<close>, 0 where it is 0 and \<^verbatim>\<open>nan\<close> where it is
  negative.
\<close>

theorem calculate_class_weights_result:
  "(c \<in> set (sorted_keys colour_mapping) \<and> map_of stats c = None \<longrightarrow>
      (\<exists>k. calculate_class_weights stats colour_mapping modifier = Inl (KeyError k) \<and>
           (k = ''share'' \<or> (k \<in> set (sorted_keys colour_mapping) \<and> map_of stats k = None))))
   \<and> ((\<forall>c \<in> set (sorted_keys colour_mapping). share_of stats c \<noteq> None) \<longrightarrow>
      (\<exists>weights. calculate_class_weights stats colour_mapping modifier = Inr weights \<and>
         length weights = length (sorted_keys colour_mapping) \<and>
         (\<forall>i < length (sorted_keys colour_mapping). \<exists>s.
            share_of stats (sorted_keys colour_mapping ! i) = Some s \<and>
            (0 < resolve_modifier modifier + s \<and> resolve_modifier modifier + s \<noteq> 1 \<longrightarrow>
               weights ! i = Finite (1 / ln (resolve_modifier modifier + s))) \<and>
            (resolve_modifier modifier + s = 1 \<longrightarrow> weights ! i = PosInf) \<and>
            (resolve_modifier modifier + s = 0 \<longrightarrow> weights ! i = Finite 0) \<and>
            (resolve_modifier modifier + s < 0 \<longrightarrow> weights ! i = NaN))))"
proof (intro conjI impI)
  assume "c \<in> set (sorted_keys colour_mapping) \<and> map_of stats c = None"
  then obtain k where "collect_shares stats (sorted_keys colour_mapping) = Inl (KeyError k)"
    "k = ''share'' \<or> (k \<in> set (sorted_keys colour_mapping) \<and> map_of stats k = None)"
    using collect_shares_missing [of c "sorted_keys colour_mapping" stats] by blast
  then show "\<exists>k. calculate_class_weights stats colour_mapping modifier = Inl (KeyError k) \<and>
           (k = ''share'' \<or> (k \<in> set (sorted_keys colour_mapping) \<and> map_of stats k = None))"
    by (simp add: calculate_class_weights_def)
next
  let ?ks = "sorted_keys colour_mapping"
  let ?m = "resolve_modifier modifier"
  assume "\<forall>c \<in> set ?ks. share_of stats c \<noteq> None"
  then obtain shares where sh: "collect_shares stats ?ks = Inr shares" "length shares = length ?ks"
    "\<forall>i < length ?ks. share_of stats (?ks ! i) = Some (shares ! i)"
    using collect_shares_all by blast
  let ?ws = "map (\<lambda>s. np_reciprocal (np_log (?m + s))) shares"
  have res: "calculate_class_weights stats colour_mapping modifier = Inr ?ws"
    using sh(1) by (simp add: calculate_class_weights_def)
  have len: "length ?ws = length ?ks" using sh(2) by simp
  have val: "\<exists>s. share_of stats (?ks ! i) = Some s \<and>
            (0 < ?m + s \<and> ?m + s \<noteq> 1 \<longrightarrow> ?ws ! i = Finite (1 / ln (?m + s))) \<and>
            (?m + s = 1 \<longrightarrow> ?ws ! i = PosInf) \<and>
            (?m + s = 0 \<longrightarrow> ?ws ! i = Finite 0) \<and>
            (?m + s < 0 \<longrightarrow> ?ws ! i = NaN)" if i: "i < length ?ks" for i
  proof -
    let ?s = "shares ! i"
    have w: "?ws ! i = np_reciprocal (np_log (?m + ?s))" using i sh(2) by simp
    have a: "0 < ?m + ?s \<and> ?m + ?s \<noteq> 1 \<longrightarrow> ?ws ! i = Finite (1 / ln (?m + ?s))"
      using np_reciprocal_log [of "?m + ?s"] w by simp
    have b: "?m + ?s = 1 \<longrightarrow> ?ws ! i = PosInf"
      using w by (simp add: np_log_def np_reciprocal_def)
    have c: "?m + ?s = 0 \<longrightarrow> ?ws ! i = Finite 0"
      using w by (simp add: np_log_def np_reciprocal_def)
    have d: "?m + ?s < 0 \<longrightarrow> ?ws ! i = NaN"
      using w by (simp add: np_log_def np_reciprocal_def)
    show ?thesis using sh(3) i a b c d by blast
  qed
  show "\<exists>weights. calculate_class_weights stats colour_mapping modifier = Inr weights \<and>
         length weights = length ?ks \<and>
         (\<forall>i < length ?ks. \<exists>s. share_of stats (?ks ! i) = Some s \<and>
            (0 < ?m + s \<and> ?m + s \<noteq> 1 \<longrightarrow> weights ! i = Finite (1 / ln (?m + s))) \<and>
            (?m + s = 1 \<longrightarrow> weights ! i = PosInf) \<and>
            (?m + s = 0 \<longrightarrow> weights ! i = Finite 0) \<and>
            (?m + s < 0 \<longrightarrow> weights ! i = NaN))"
    using res len val by blast
qed

theorem calculate_class_weights_result_witness:
  "''sand'' \<in> set (sorted_keys [(''sand'', 7::int), (''coral'', 30)]) \<and>
   map_of [(''coral'', [(''share'', 1 / 2)])] ''sand'' = None \<and>
   calculate_class_weights [(''coral'', [(''share'', 1 / 2)])] [(''sand'', 7::int), (''coral'', 30)] None
     = Inl (KeyError ''sand'') \<and>
   share_of [(''coral'', [(''share'', 1 / 2)])] ''coral'' = Some (1 / 2) \<and>
   (0::real) < resolve_modifier None + 1 / 2 \<and> resolve_modifier None + 1 / 2 \<noteq> (1::real) \<and>
   calculate_class_weights [(''coral'', [(''share'', 1 / 2)])] [(''coral'', 30::int)] None
     = Inr [Finite (1 / ln (151 / 100))] \<and>
   calculate_class_weights [(''coral'', [(''share'', 0)])] [(''coral'', 30::int)] (Some 1)
     = Inr [PosInf]"
  using calculate_class_weights_result
          [of "''sand''" "[(''sand'', 7::int), (''coral'', 30)]" "[(''coral'', [(''share'', 1 / 2)])]" None]
  by (simp add: calculate_class_weights_def sorted_keys_def dict_get_def share_of_def
        resolve_modifier_def np_log_def np_reciprocal_def)

subsection \<open>Properties of the checkpoint saver\<close>

lemma checkpoint_path_not_best: "checkpoint_path self epoch \<noteq> best_path self"
proof
  let ?a = "folder_path self"
  let ?c = "''checkpoint_epoch_'' @ str_int epoch @ ''.pt''"
  assume eq: "checkpoint_path self epoch = best_path self"
  have c: "path_join ?a ?c = (if ?a = [] \<or> last ?a = CHR ''/'' then ?a else ?a @ ''/'') @ ?c"
    by (simp add: path_join_def)
  have b: "path_join ?a ''model_best.pth'' =
             (if ?a = [] \<or> last ?a = CHR ''/'' then ?a else ?a @ ''/'') @ ''model_best.pth''"
    by (simp add: path_join_def)
  from eq have "?c = ''model_best.pth''"
    unfolding checkpoint_path_def best_path_def c b by (simp only: same_append_eq)
  then have "last ?c = last ''model_best.pth''" by (rule arg_cong)
  then show False by simp
qed

text \<open>
  Claim C8. For every epoch, \<open>save_checkpoint\<close> with \<open>is_best = True\<close> writes that
  epoch's checkpoint file and makes the best-model file a byte-for-byte copy of it. A
  call with \<open>is_best = False\<close>, on any file system it finds, writes that epoch's
  checkpoint file, changes no other file and in particular leaves the best-model file
  as it was; after an earlier call with \<open>is_best = True\<close> the best-model file still holds
  the bytes of that earlier checkpoint.
\<close>

theorem save_checkpoint_best_file:
  "(save_checkpoint self state_bytes True epoch fs) (checkpoint_path self epoch) = Some state_bytes
   \<and> (save_checkpoint self state_bytes True epoch fs) (best_path self)
       = (save_checkpoint self state_bytes True epoch fs) (checkpoint_path self epoch)
   \<and> (save_checkpoint self later_bytes False later_epoch fs') (checkpoint_path self later_epoch)
       = Some later_bytes
   \<and> (\<forall>p. p \<noteq> checkpoint_path self later_epoch \<longrightarrow>
          (save_checkpoint self later_bytes False later_epoch fs') p = fs' p)
   \<and> (save_checkpoint self later_bytes False later_epoch fs') (best_path self) = fs' (best_path self)
   \<and> (save_checkpoint self later_bytes False later_epoch
         (save_checkpoint self state_bytes True epoch fs)) (best_path self) = Some state_bytes"
proof -
  have ne: "checkpoint_path self e \<noteq> best_path self" for e
    by (rule checkpoint_path_not_best)
  have ne': "best_path self \<noteq> checkpoint_path self e" for e
    using ne [of e] by simp
  show ?thesis
    by (simp add: save_checkpoint_def torch_save_def copyfile_def Let_def ne ne')
qed

theorem save_checkpoint_best_file_witness:
  "''run/instructions.json'' \<noteq> checkpoint_path \<lparr>instructions = (), folder_path = ''run''\<rparr> 4 \<and>
   save_checkpoint \<lparr>instructions = (), folder_path = ''run''\<rparr> [9] False 4
       [''run/instructions.json'' \<mapsto> [1]] ''run/instructions.json'' = Some [1] \<and>
   save_checkpoint \<lparr>instructions = (), folder_path = ''run''\<rparr> [9] False 4
       (save_checkpoint \<lparr>instructions = (), folder_path = ''run''\<rparr> [1, 2] True 3 Map.empty)
       ''run/model_best.pth'' = Some [1, 2]"
  using save_checkpoint_best_file
          [of "\<lparr>instructions = (), folder_path = ''run''\<rparr>" "[1, 2]" 3 Map.empty "[9]" 4
              "[''run/instructions.json'' \<mapsto> [1]]"]
  by (simp add: checkpoint_path_def best_path_def path_join_def)

end
